theory Spec2Isabelle
  imports Complex_Main "HOL-Library.Word" "HOL-Library.Sublist"
begin

section \<open>Strings\<close>

text \<open>
  A JavaScript string is a sequence of UTF-16 code units; \<open>length\<close>, the regular
  expression atom \<open>.\<close> (without the \<open>u\<close> flag) and \<open>trim\<close> all work on code units.
  String literals of the source are ASCII and are written through \<open>lit\<close>.
\<close>

type_synonym jschar = "16 word"
type_synonym jsstring = "jschar list"

definition lit :: "string \<Rightarrow> jsstring" where
  "lit s = map of_char s"

text \<open>
  ECMAScript \<open>LineTerminator\<close>: LF, CR, LS, PS. The atom \<open>.\<close> matches every code
  unit but these.
\<close>

definition is_line_terminator :: "jschar \<Rightarrow> bool" where
  "is_line_terminator c \<longleftrightarrow> c = 0x000A \<or> c = 0x000D \<or> c = 0x2028 \<or> c = 0x2029"

text \<open>
  The class \<open>\s\<close>, which is also what \<open>String.prototype.trim\<close> strips:
  \<open>WhiteSpace\<close> (TAB, VT, FF, SP, NBSP, ZWNBSP and the category Zs) together with
  \<open>LineTerminator\<close>.
\<close>

definition is_white_space :: "jschar \<Rightarrow> bool" where
  "is_white_space c \<longleftrightarrow>
     c = 0x0009 \<or> c = 0x000B \<or> c = 0x000C \<or> c = 0x0020 \<or> c = 0x00A0 \<or>
     c = 0x1680 \<or> (0x2000 \<le> c \<and> c \<le> 0x200A) \<or> c = 0x202F \<or> c = 0x205F \<or>
     c = 0x3000 \<or> c = 0xFEFF \<or> is_line_terminator c"

definition trim :: "jsstring \<Rightarrow> jsstring" where
  "trim s = rev (dropWhile is_white_space (rev (dropWhile is_white_space s)))"

section \<open>Script Generator (src/app/page.tsx, lines 14-28)\<close>

text \<open>
  The literals are the ones of the source file as it is given, where every letter of the
  captions is the character \<open>?\<close>.
\<close>

definition SAMPLE_LINES :: "jsstring list" where
  "SAMPLE_LINES =
     [lit ''??????! ?? ?? ?? ???? ???? ?? ??? ???????'',
      lit ''?? ?????? ???? ??? ?? ?????? ????? ?? ????????'',
      lit ''???? ??????? ?? ??? ???? ???? ? ?????!'']"

definition generateHindiScript :: "jsstring \<Rightarrow> jsstring list" where
  "generateHindiScript topic =
     (if trim topic = [] then SAMPLE_LINES
      else
        [lit ''??????! ???? '' @ trim topic @ lit '' ?? ???? ??? ????? ????'',
         trim topic @ lit '' ?? ????? ?? ??? ?? ???? ?????? ?? ??????'',
         lit ''??? ?? ?????? ??? ?? ???? ?? ???? ?????''])"

section \<open>Line Wrapper (src/app/page.tsx, lines 30-32)\<close>

text \<open>
  One attempt of the pattern \<open>.{1,40}(\s|$)\<close> at the head of \<open>s\<close>, with the
  quantifier allowed at most \<open>k\<close> code units. The quantifier is greedy, so the longest run
  is tried first and given back one code unit at a time; after the run, \<open>\s\<close> consumes
  one white-space code unit, or \<open>$\<close> (no \<open>m\<close> flag) holds at the very end of the input.
  The result is the matched text and the rest of the input after it.
\<close>

fun match_here :: "nat \<Rightarrow> jsstring \<Rightarrow> (jsstring \<times> jsstring) option" where
  "match_here 0 s = None"
| "match_here (Suc k) s =
     (if Suc k \<le> length s \<and> (\<forall>c \<in> set (take (Suc k) s). \<not> is_line_terminator c) then
        (case drop (Suc k) s of
           [] \<Rightarrow> Some (take (Suc k) s, [])
         | c # rest \<Rightarrow>
             if is_white_space c then Some (take (Suc k) s @ [c], rest)
             else match_here k s)
      else match_here k s)"

text \<open>
  \<open>String.prototype.match\<close> with the \<open>g\<close> flag: all matches, left to right. Where no
  match starts at the current position the search moves one code unit on (that code unit
  is in no match); after a match it goes on behind the match.
\<close>

function match_all :: "jsstring \<Rightarrow> jsstring list" where
  "match_all [] = []"
| "match_all (c # s) =
     (case match_here 40 (c # s) of
        Some (m, rest) \<Rightarrow> m # match_all rest
      | None \<Rightarrow> match_all s)"
  by pat_completeness auto
termination
proof (relation "measure length")
  show "wf (measure length)" by simp
next
  fix c :: jschar and s x2 x y
  assume "match_here 40 (c # s) = Some x2" and "(x, y) = x2"
  then have some: "match_here 40 (c # s) = Some (x, y)" by simp
  have shorter: "match_here k t = Some (m, rest) \<Longrightarrow> length rest < length t" for k t m rest
  proof (induction k)
    case 0
    then show ?case by simp
  next
    case (Suc k)
    show ?case
    proof (cases "Suc k \<le> length t \<and> (\<forall>c \<in> set (take (Suc k) t). \<not> is_line_terminator c)")
      case False
      with Suc show ?thesis by simp
    next
      case ok: True
      show ?thesis
      proof (cases "drop (Suc k) t")
        case Nil
        with ok Suc.prems show ?thesis by auto
      next
        case (Cons d r)
        have "length (drop (Suc k) t) = length t - Suc k" by simp
        with Cons have len: "Suc (length r) = length t - Suc k" by simp
        show ?thesis
        proof (cases "is_white_space d")
          case True
          with ok Cons Suc.prems have "rest = r" by simp
          with len show ?thesis by arith
        next
          case False
          with ok Cons Suc show ?thesis by simp
        qed
      qed
    qed
  qed
  from shorter [OF some] show "(y, c # s) \<in> measure length" by simp
next
  fix c :: jschar and s
  show "(s, c # s) \<in> measure length" by simp
qed

text \<open>
  The callback of \<open>flatMap\<close>: \<open>t.length > 40 ? t.match(re) ?? [t] : [t]\<close>. \<open>match\<close>
  yields \<open>null\<close> when there is no match at all.
\<close>

definition wrap_text :: "jsstring \<Rightarrow> jsstring list" where
  "wrap_text t =
     (if length t > 40 then (case match_all t of [] \<Rightarrow> [t] | m # ms \<Rightarrow> m # ms) else [t])"

definition splitIntoLines :: "jsstring list \<Rightarrow> jsstring list" where
  "splitIntoLines texts = filter (\<lambda>s. s \<noteq> []) (map trim (concat (map wrap_text texts)))"


section \<open>Video Assembler (src/app/page.tsx, lines 52-171)\<close>

text \<open>
  JavaScript numbers are modelled by exact rationals: \<open>*\<close> and \<open>/\<close> below do not
  round, and there is neither overflow to \<open>Infinity\<close> nor \<open>NaN\<close>. The number input
  of the page yields a finite number for every text typed into it (the empty text gives 0).
  \<open>Math.round\<close> rounds to the nearest integer, halves towards \<open>+\<infinity>\<close>.
\<close>

definition Math_round :: "rat \<Rightarrow> int" where
  "Math_round x = \<lfloor>x + 1 / 2\<rfloor>"

definition Math_floor :: "rat \<Rightarrow> int" where
  "Math_floor x = \<lfloor>x\<rfloor>"

definition perLineMs :: "rat \<Rightarrow> int" where
  "perLineMs durationPerLine = Math_round (durationPerLine * 1000)"

definition framesPerSecond :: int where
  "framesPerSecond = 30"

definition framesPerLine :: "rat \<Rightarrow> int" where
  "framesPerLine durationPerLine =
     max 1 (Math_floor ((of_int (perLineMs durationPerLine) / 1000) * of_int framesPerSecond))"

definition allLines :: "jsstring list \<Rightarrow> jsstring list" where
  "allLines lines = (if length lines \<noteq> 0 then lines else SAMPLE_LINES)"

definition totalFrames :: "rat \<Rightarrow> jsstring list \<Rightarrow> int" where
  "totalFrames durationPerLine lines =
     int (length (allLines lines)) * framesPerLine durationPerLine"

text \<open>
  \<open>String(frameIndex)\<close> for a non-negative integer is its decimal numeral (below
  \<open>10\<^sup>2\<^sup>1\<close>, far beyond any frame count), and \<open>padStart\<close> puts copies of the pad
  string, cut to size, in front of a string shorter than the target length.
\<close>

fun String_nat :: "nat \<Rightarrow> jsstring" where
  "String_nat n =
     (if n < 10 then [of_nat (48 + n)] else String_nat (n div 10) @ [of_nat (48 + n mod 10)])"

definition padStart :: "nat \<Rightarrow> jsstring \<Rightarrow> jsstring \<Rightarrow> jsstring" where
  "padStart targetLength padString s =
     (if targetLength \<le> length s \<or> padString = [] then s
      else take (targetLength - length s)
             (concat (replicate (targetLength - length s) padString)) @ s)"

definition frame_filename :: "nat \<Rightarrow> jsstring" where
  "frame_filename frameIndex =
     lit ''frame_'' @ padStart 4 (lit ''0'') (String_nat frameIndex) @ lit ''.png''"

datatype RenderState =
    Idle
  | Preparing
  | Generating rat
  | Done jsstring nat
  | Error jsstring

text \<open>
  A frame is what \<open>drawFrame\<close> is called with; the image written to the encoder's file
  system is drawn from these two values on a canvas of the chosen resolution.
\<close>

record frame =
  caption :: jsstring
  progress0to1 :: rat

text \<open>
  The state the frame loop works on: its counter, the calls of \<open>ffmpeg.writeFile\<close> and
  the calls of \<open>setState\<close>, both in the order they are made. The calls into the canvas
  and the encoder are taken to succeed (a rejected one ends the invocation in the state
  \<open>error\<close>, with the frames written so far).
\<close>

record render_run =
  frameIndex :: nat
  written :: "(jsstring \<times> frame) list"
  states :: "RenderState list"

text \<open>The inner loop, \<open>for (let fi = 0; fi < framesPerLine; fi++)\<close>, for the line \<open>text\<close>.\<close>

function line_frames :: "jsstring \<Rightarrow> int \<Rightarrow> int \<Rightarrow> int \<Rightarrow> render_run \<Rightarrow> render_run" where
  "line_frames text fpl tot fi run =
     (if fi < fpl then
        let p = (of_nat (frameIndex run) + 1) / of_int tot;
            filename = frame_filename (frameIndex run)
        in line_frames text fpl tot (fi + 1)
             (run\<lparr>frameIndex := frameIndex run + 1,
                  written := written run @ [(filename, \<lparr>caption = text, progress0to1 = p\<rparr>)],
                  states := states run @ [Generating p]\<rparr>)
      else run)"
  by pat_completeness auto
termination
  by (relation "measure (\<lambda>(text, fpl, tot, fi, run). nat (fpl - fi))") auto

text \<open>The outer loop, \<open>for (let li = 0; li < allLines.length; li++)\<close>.\<close>

function all_frames :: "jsstring list \<Rightarrow> int \<Rightarrow> int \<Rightarrow> nat \<Rightarrow> render_run \<Rightarrow> render_run" where
  "all_frames ls fpl tot li run =
     (if li < length ls then
        all_frames ls fpl tot (li + 1) (line_frames (ls ! li) fpl tot 0 run)
      else run)"
  by pat_completeness auto
termination
  by (relation "measure (\<lambda>(ls, fpl, tot, li, run). length ls - li)") auto

text \<open>
  \<open>render\<close> from its first \<open>setState\<close> to the end of the frame loop (lines 52 to 171),
  on the path where the encoder has loaded and the drawing context is available (where
  it is not, the invocation ends in the state \<open>error\<close> before any frame). The encoding
  that follows the loop (lines 173 to 213) is not part of this model.
\<close>

definition render :: "rat \<Rightarrow> jsstring list \<Rightarrow> render_run" where
  "render durationPerLine lines =
     all_frames (allLines lines) (framesPerLine durationPerLine)
       (totalFrames durationPerLine lines) 0
       \<lparr>frameIndex = 0, written = [], states = [Preparing]\<rparr>"




section \<open>Upload Relay (src/next.config.js, lines 15-44)\<close>

text \<open>
  A value of a \<open>FormData\<close> entry is a string or a \<open>File\<close> (its name and its bytes);
  \<open>form.get\<close> yields the first value under a name, or \<open>null\<close>.
\<close>

datatype form_value =
    FString jsstring
  | FFile jsstring "8 word list"

type_synonym form_data = "(jsstring \<times> form_value) list"

definition form_get :: "form_data \<Rightarrow> jsstring \<Rightarrow> form_value option" where
  "form_get form name = map_of form name"

text \<open>\<open>String(v || "")\<close> for \<open>v\<close> the result of \<open>form.get\<close>.\<close>

fun String_or_empty :: "form_value option \<Rightarrow> jsstring" where
  "String_or_empty None = []"
| "String_or_empty (Some (FString s)) = s"
| "String_or_empty (Some (FFile name bytes)) = lit ''[object File]''"

text \<open>\<open>!file\<close>: \<open>null\<close> and the empty string are falsy, a \<open>File\<close> is an object.\<close>

fun falsy_value :: "form_value option \<Rightarrow> bool" where
  "falsy_value None = True"
| "falsy_value (Some (FString s)) = (s = [])"
| "falsy_value (Some (FFile name bytes)) = False"

fun instanceof_File :: "form_value option \<Rightarrow> bool" where
  "instanceof_File (Some (FFile name bytes)) = True"
| "instanceof_File _ = False"

fun file_bytes :: "form_value option \<Rightarrow> 8 word list" where
  "file_bytes (Some (FFile name bytes)) = bytes"
| "file_bytes _ = []"

text \<open>
  JSON values, as \<open>res.json()\<close> yields them and \<open>JSON.stringify\<close> takes them; an object
  is the list of its own properties.
\<close>

datatype json =
    JNull
  | JBool bool
  | JNum rat
  | JStr jsstring
  | JArr "json list"
  | JObj "(jsstring \<times> json) list"

text \<open>
  \<open>v?.name\<close> for the names \<open>error\<close> and \<open>message\<close>; \<open>None\<close> is \<open>undefined\<close>. Only
  an object has such a property of its own; \<open>null\<close> and \<open>undefined\<close> short-circuit, and
  on a boolean, a number, a string or an array the property is \<open>undefined\<close>.
\<close>

fun optional_get :: "json option \<Rightarrow> jsstring \<Rightarrow> json option" where
  "optional_get (Some (JObj props)) name = map_of props name"
| "optional_get _ name = None"

fun truthy :: "json option \<Rightarrow> bool" where
  "truthy None = False"
| "truthy (Some JNull) = False"
| "truthy (Some (JBool b)) = b"
| "truthy (Some (JNum n)) = (n \<noteq> 0)"
| "truthy (Some (JStr s)) = (s \<noteq> [])"
| "truthy (Some (JArr vs)) = True"
| "truthy (Some (JObj props)) = True"

text \<open>\<open>a || b\<close> where \<open>b\<close> is a string literal.\<close>

fun or_else :: "json option \<Rightarrow> jsstring \<Rightarrow> json" where
  "or_else None b = JStr b"
| "or_else (Some v) b = (if truthy (Some v) then v else JStr b)"

record response =
  status :: nat
  body :: json
  headers :: "(jsstring \<times> jsstring) list"

text \<open>
  The request sent to the Graph API: the page the URL
  \<open>https://graph.facebook.com/v21.0/<page>/videos\<close> names (the source splices
  \<open>encodeURIComponent(pageId)\<close> in, which does not throw on the well-formed strings a
  form holds) and the entries of the multipart body.
\<close>

record upstream_request =
  graph_page :: jsstring
  entries :: form_data

text \<open>
  What the remote API answers: \<open>res.ok\<close>, and the outcome of \<open>res.json()\<close>, which
  rejects with an error message when the body is not JSON. \<open>fetch\<close> itself rejects with an
  error message when no answer arrives.
\<close>

record remote_response =
  ok :: bool
  parsed :: "jsstring + json"

text \<open>The \<open>catch\<close> block: \<open>e?.message || "Server error"\<close> with status 500.\<close>

definition server_error :: "jsstring \<Rightarrow> response" where
  "server_error message =
     \<lparr>status = 500,
      body = JObj [(lit ''error'', or_else (Some (JStr message)) (lit ''Server error''))],
      headers = []\<rparr>"

text \<open>
  The handler, given the outcome of \<open>req.formData()\<close> (an error message when the body is
  not a form) and the remote API. It returns its response together with the requests it
  sent to the remote API, in order.
\<close>

definition POST ::
  "jsstring + form_data \<Rightarrow> (upstream_request \<Rightarrow> jsstring + remote_response) \<Rightarrow>
     response \<times> upstream_request list" where
  "POST req fetch =
     (case req of
        Inl e \<Rightarrow> (server_error e, [])
      | Inr form \<Rightarrow>
          let pageId = String_or_empty (form_get form (lit ''pageId''));
              accessToken = String_or_empty (form_get form (lit ''accessToken''));
              description = String_or_empty (form_get form (lit ''description''));
              file = form_get form (lit ''file'')
          in
            if pageId = [] \<or> accessToken = [] \<or> falsy_value file \<or> \<not> instanceof_File file then
              (\<lparr>status = 400,
                body = JObj [(lit ''error'', JStr (lit ''Missing required fields''))],
                headers = []\<rparr>, [])
            else
              let upstream =
                    \<lparr>graph_page = pageId,
                     entries =
                       [(lit ''source'', FFile (lit ''video.mp4'') (file_bytes file))] @
                       (if description \<noteq> [] then [(lit ''description'', FString description)]
                        else []) @
                       [(lit ''access_token'', FString accessToken)]\<rparr>
              in
                (case fetch upstream of
                   Inl e \<Rightarrow> (server_error e, [upstream])
                 | Inr res \<Rightarrow>
                     (case parsed res of
                        Inl e \<Rightarrow> (server_error e, [upstream])
                      | Inr data \<Rightarrow>
                          if \<not> ok res then
                            (\<lparr>status = 500,
                              body = JObj [(lit ''error'',
                                or_else (optional_get (optional_get (Some data) (lit ''error''))
                                           (lit ''message''))
                                  (lit ''Facebook upload failed''))],
                              headers = []\<rparr>, [upstream])
                          else
                            (\<lparr>status = 200, body = data,
                              headers = [(lit ''content-type'', lit ''application/json'')]\<rparr>,
                             [upstream]))))"

section \<open>Notions of the specification\<close>

text \<open>\<open>Array.prototype.join(" ")\<close>: the strings with single spaces between them.\<close>

fun join_sp :: "jsstring list \<Rightarrow> jsstring" where
  "join_sp [] = []"
| "join_sp [w] = w"
| "join_sp (w # v # ws) = w @ [0x0020] @ join_sp (v # ws)"

text \<open>A word that fits a line: not empty, at most 40 code units, no white space in it.\<close>

definition word_ok :: "jsstring \<Rightarrow> bool" where
  "word_ok w \<longleftrightarrow> w \<noteq> [] \<and> length w \<le> 40 \<and> (\<forall>c \<in> set w. \<not> is_white_space c)"

text \<open>What the wrapper makes of the matches of one long string.\<close>

definition chunks :: "jsstring \<Rightarrow> jsstring list" where
  "chunks s = filter (\<lambda>x. x \<noteq> []) (map trim (match_all s))"

text \<open>
  The index a frame's file name carries: the decimal number between \<open>frame_\<close> and
  \<open>.png\<close>, as the encoder's input pattern \<open>frame_%04d.png\<close> reads it.
\<close>

definition decode_index :: "jsstring \<Rightarrow> nat" where
  "decode_index name =
     foldl (\<lambda>a c. 10 * a + (unat c - 48)) 0 (take (length name - 10) (drop 6 name))"



section \<open>Properties of the Script Generator\<close>

lemma line_terminator_white_space: "is_line_terminator c \<Longrightarrow> is_white_space c"
  by (simp add: is_white_space_def)

lemma all_dropWhile: "(\<forall>x \<in> set (dropWhile P s). P x) \<longleftrightarrow> (\<forall>x \<in> set s. P x)"
  by (induction s) auto

lemma trim_eq_Nil_iff: "trim s = [] \<longleftrightarrow> (\<forall>c \<in> set s. is_white_space c)"
  by (simp add: trim_def all_dropWhile)

text \<open>
  C6, as the code has it: a topic that trims to the empty string (that is, one of white
  space only) yields the three fixed sample lines; any other topic yields exactly three
  lines, of which the first two contain the trimmed topic and the third is a fixed
  closing line without it.
\<close>

theorem generateHindiScript_lines:
  "(trim topic = [] \<longleftrightarrow> (\<forall>c \<in> set topic. is_white_space c)) \<and>
   (trim topic = [] \<longrightarrow> generateHindiScript topic = SAMPLE_LINES) \<and>
   length SAMPLE_LINES = 3 \<and>
   (trim topic \<noteq> [] \<longrightarrow>
      length (generateHindiScript topic) = 3 \<and>
      sublist (trim topic) (generateHindiScript topic ! 0) \<and>
      sublist (trim topic) (generateHindiScript topic ! 1) \<and>
      generateHindiScript topic ! 2 = lit ''??? ?? ?????? ??? ?? ???? ?? ???? ?????'')"
proof (intro conjI impI)
  show "trim topic = [] \<longleftrightarrow> (\<forall>c \<in> set topic. is_white_space c)" by (rule trim_eq_Nil_iff)
  show "generateHindiScript topic = SAMPLE_LINES" if "trim topic = []"
    using that by (simp add: generateHindiScript_def)
  show "length SAMPLE_LINES = 3" by (simp add: SAMPLE_LINES_def)
  assume t: "trim topic \<noteq> []"
  then show "length (generateHindiScript topic) = 3" by (simp add: generateHindiScript_def)
  from t have "generateHindiScript topic ! 0 =
      lit ''??????! ???? '' @ trim topic @ lit '' ?? ???? ??? ????? ????''"
    by (simp add: generateHindiScript_def)
  then show "sublist (trim topic) (generateHindiScript topic ! 0)"
    unfolding sublist_def by blast
  from t have "generateHindiScript topic ! 1 =
      [] @ trim topic @ lit '' ?? ????? ?? ??? ?? ???? ?????? ?? ??????''"
    by (simp add: generateHindiScript_def)
  then show "sublist (trim topic) (generateHindiScript topic ! 1)"
    unfolding sublist_def by blast
  from t show "generateHindiScript topic ! 2 = lit ''??? ?? ?????? ??? ?? ???? ?? ???? ?????''"
    by (simp add: generateHindiScript_def)
qed

lemma trim_yoga: "trim (lit '' yoga  '') = lit ''yoga''"
  by code_simp

lemma trim_blank: "trim (lit ''   '') = []"
  by code_simp

theorem generateHindiScript_lines_witness:
  "trim (lit ''   '') = [] \<and> generateHindiScript (lit ''   '') = SAMPLE_LINES \<and>
   trim (lit '' yoga  '') = lit ''yoga'' \<and>
   length (generateHindiScript (lit '' yoga  '')) = 3 \<and>
   sublist (lit ''yoga'') (generateHindiScript (lit '' yoga  '') ! 0) \<and>
   sublist (lit ''yoga'') (generateHindiScript (lit '' yoga  '') ! 1)"
proof -
  note a = generateHindiScript_lines [of "lit ''   ''"]
  note b = generateHindiScript_lines [of "lit '' yoga  ''"]
  have ne: "trim (lit '' yoga  '') \<noteq> []" unfolding trim_yoga by (simp add: lit_def)
  from a trim_blank have 1: "generateHindiScript (lit ''   '') = SAMPLE_LINES" by blast
  from b ne have 2: "length (generateHindiScript (lit '' yoga  '')) = 3"
    and 3: "sublist (trim (lit '' yoga  '')) (generateHindiScript (lit '' yoga  '') ! 0)"
    and 4: "sublist (trim (lit '' yoga  '')) (generateHindiScript (lit '' yoga  '') ! 1)"
    by blast+
  from trim_blank 1 trim_yoga 2 3 4 show ?thesis unfolding trim_yoga by (intro conjI)
qed

text \<open>
  C6 as stated fails: for the topic \<open>a\<close> the third line does not contain the topic.
\<close>

theorem generateHindiScript_lines_counterexample:
  "trim (lit ''a'') = lit ''a'' \<and> lit ''a'' \<noteq> [] \<and>
   \<not> sublist (trim (lit ''a'')) (generateHindiScript (lit ''a'') ! 2)"
  by code_simp

section \<open>Properties of the Line Wrapper\<close>

lemma length_trim_le: "length (trim s) \<le> length s"
proof -
  have "length (dropWhile is_white_space (rev (dropWhile is_white_space s)))
      \<le> length (rev (dropWhile is_white_space s))"
    by (rule length_dropWhile_le)
  then have "length (trim s) \<le> length (dropWhile is_white_space s)"
    by (simp add: trim_def)
  also have "\<dots> \<le> length s" by (rule length_dropWhile_le)
  finally show ?thesis .
qed

lemma trim_snoc_white_space:
  assumes "is_white_space c"
  shows "trim (r @ [c]) = trim r"
proof (cases "\<forall>x \<in> set r. is_white_space x")
  case True
  with assms have "trim (r @ [c]) = []" "trim r = []"
    by (simp_all add: trim_eq_Nil_iff)
  then show ?thesis by simp
next
  case False
  then obtain x where "x \<in> set r" "\<not> is_white_space x" by blast
  then have "dropWhile is_white_space (r @ [c]) = dropWhile is_white_space r @ [c]"
    by (rule dropWhile_append1)
  with assms show ?thesis by (simp add: trim_def)
qed

lemma trim_id:
  assumes "s \<noteq> []" "\<not> is_white_space (hd s)" "\<not> is_white_space (last s)"
  shows "trim s = s"
proof -
  from assms have a: "dropWhile is_white_space s = s"
    by (cases s) simp_all
  from assms have "rev s \<noteq> []" "\<not> is_white_space (hd (rev s))"
    by (simp_all add: hd_rev)
  then have "dropWhile is_white_space (rev s) = rev s"
    by (cases "rev s") simp_all
  with a show ?thesis by (simp add: trim_def)
qed

lemma match_here_shape:
  "match_here k s = Some (m, rest) \<Longrightarrow>
     m @ rest = s \<and>
     (\<exists>r. r \<noteq> [] \<and> length r \<le> k \<and> (\<forall>c \<in> set r. \<not> is_line_terminator c) \<and>
          ((m = r \<and> rest = []) \<or> (\<exists>c. is_white_space c \<and> m = r @ [c])))"
proof (induction k)
  case 0
  then show ?case by simp
next
  case (Suc k)
  let ?ok = "Suc k \<le> length s \<and> (\<forall>c \<in> set (take (Suc k) s). \<not> is_line_terminator c)"
  show ?case
  proof (cases ?ok)
    case False
    with Suc.prems have "match_here k s = Some (m, rest)" by simp
    from Suc.IH [OF this] obtain r where "m @ rest = s" "r \<noteq> []" "length r \<le> k"
      "\<forall>c \<in> set r. \<not> is_line_terminator c"
      "(m = r \<and> rest = []) \<or> (\<exists>c. is_white_space c \<and> m = r @ [c])" by blast
    moreover from this have "length r \<le> Suc k" by simp
    ultimately show ?thesis by blast
  next
    case ok: True
    then have ne: "take (Suc k) s \<noteq> []" by auto
    from ok have len: "length (take (Suc k) s) \<le> Suc k" by simp
    show ?thesis
    proof (cases "drop (Suc k) s")
      case Nil
      with ok Suc.prems have "m = take (Suc k) s" "rest = []" by simp_all
      with Nil ne len ok show ?thesis
        by (metis append_Nil2 append_take_drop_id)
    next
      case (Cons c r)
      show ?thesis
      proof (cases "is_white_space c")
        case True
        with ok Cons Suc.prems have m: "m = take (Suc k) s @ [c]" and r: "rest = r" by simp_all
        have "m @ rest = take (Suc k) s @ drop (Suc k) s" using m r Cons by simp
        then have "m @ rest = s" by simp
        with m True ne len ok show ?thesis by blast
      next
        case False
        with ok Cons Suc.prems have "match_here k s = Some (m, rest)" by simp
        from Suc.IH [OF this] obtain r where "m @ rest = s" "r \<noteq> []" "length r \<le> k"
          "\<forall>c \<in> set r. \<not> is_line_terminator c"
          "(m = r \<and> rest = []) \<or> (\<exists>c. is_white_space c \<and> m = r @ [c])" by blast
        moreover from this have "length r \<le> Suc k" by simp
        ultimately show ?thesis by blast
      qed
    qed
  qed
qed

lemma match_here_feasible:
  assumes "0 < j" "j \<le> k" "j \<le> length s" "\<forall>c \<in> set (take j s). \<not> is_line_terminator c"
    and "drop j s = [] \<or> is_white_space (hd (drop j s))"
  shows "match_here k s \<noteq> None"
  using assms(2)
proof (induction k)
  case 0
  with assms(1) show ?case by simp
next
  case (Suc k)
  show ?case
  proof (cases "j = Suc k")
    case True
    with assms show ?thesis by (cases "drop (Suc k) s") auto
  next
    case False
    with Suc have "match_here k s \<noteq> None" by simp
    then show ?thesis by (auto split: list.splits)
  qed
qed

lemma space_white: "is_white_space 0x0020"
  by (simp add: is_white_space_def)

lemma join_sp_Cons: "ws \<noteq> [] \<Longrightarrow> join_sp (w # ws) = w @ [0x0020] @ join_sp ws"
  by (cases ws) simp_all

lemma join_sp_eq_Nil: "\<forall>w \<in> set ws. w \<noteq> [] \<Longrightarrow> join_sp ws = [] \<longleftrightarrow> ws = []"
  by (induction ws rule: join_sp.induct) simp_all

lemma join_sp_append:
  "xs \<noteq> [] \<Longrightarrow> ys \<noteq> [] \<Longrightarrow> join_sp (xs @ ys) = join_sp xs @ [0x0020] @ join_sp ys"
proof (induction xs rule: join_sp.induct)
  case 1
  then show ?case by simp
next
  case (2 w)
  then show ?case by (simp add: join_sp_Cons)
next
  case (3 w v ws)
  then show ?case by simp
qed

lemma hd_join_sp: "ws \<noteq> [] \<Longrightarrow> hd ws \<noteq> [] \<Longrightarrow> hd (join_sp ws) = hd (hd ws)"
  by (cases ws rule: join_sp.cases) simp_all

lemma last_join_sp:
  "ws \<noteq> [] \<Longrightarrow> \<forall>w \<in> set ws. w \<noteq> [] \<Longrightarrow> last (join_sp ws) = last (last ws)"
proof (induction ws rule: join_sp.induct)
  case (3 w v ws)
  then have "join_sp (v # ws) \<noteq> []" by (simp add: join_sp_eq_Nil)
  with 3 show ?case by simp
qed simp_all

lemma trim_join_sp:
  assumes "ws \<noteq> []" "\<forall>w \<in> set ws. word_ok w"
  shows "trim (join_sp ws) = join_sp ws"
proof (rule trim_id)
  from assms have ne: "\<forall>w \<in> set ws. w \<noteq> []" by (simp add: word_ok_def)
  with assms show "join_sp ws \<noteq> []" by (simp add: join_sp_eq_Nil)
  from assms have "hd ws \<in> set ws" "last ws \<in> set ws" by simp_all
  with assms have h: "word_ok (hd ws)" and l: "word_ok (last ws)" by blast+
  from h have "hd (hd ws) \<in> set (hd ws)" by (simp add: word_ok_def)
  with h have "\<not> is_white_space (hd (hd ws))" by (simp add: word_ok_def)
  moreover from h assms have "hd (join_sp ws) = hd (hd ws)"
    by (simp add: hd_join_sp word_ok_def)
  ultimately show "\<not> is_white_space (hd (join_sp ws))" by simp
  from l have "last (last ws) \<in> set (last ws)" by (simp add: word_ok_def)
  with l have "\<not> is_white_space (last (last ws))" by (simp add: word_ok_def)
  moreover from assms ne have "last (join_sp ws) = last (last ws)"
    by (simp add: last_join_sp)
  ultimately show "\<not> is_white_space (last (join_sp ws))" by simp
qed

lemma join_sp_split:
  "\<forall>w \<in> set ws. word_ok w \<Longrightarrow> join_sp ws = r @ c # rest \<Longrightarrow> is_white_space c \<Longrightarrow>
     \<exists>j. 0 < j \<and> j < length ws \<and> r = join_sp (take j ws) \<and> rest = join_sp (drop j ws)"
proof (induction ws arbitrary: r rule: join_sp.induct)
  case 1
  then show ?case by simp
next
  case (2 w)
  then have "c \<in> set w" by simp
  with 2 show ?case by (simp add: word_ok_def)
next
  case (3 w v ws)
  from "3.prems"(2) have eq: "w @ 0x0020 # join_sp (v # ws) = r @ c # rest" by simp
  from "3.prems"(1) have w: "\<forall>x \<in> set w. \<not> is_white_space x" by (simp add: word_ok_def)
  from eq consider
      (a) u where "w = r @ u" "u @ 0x0020 # join_sp (v # ws) = c # rest"
    | (b) u where "w @ u = r" "0x0020 # join_sp (v # ws) = u @ c # rest"
    by (auto simp: append_eq_append_conv2)
  then show ?case
  proof cases
    case a
    show ?thesis
    proof (cases u)
      case Nil
      with a have "r = w" "rest = join_sp (v # ws)" by simp_all
      then have "0 < (1::nat) \<and> 1 < length (w # v # ws) \<and> r = join_sp (take 1 (w # v # ws))
          \<and> rest = join_sp (drop 1 (w # v # ws))" by simp
      then show ?thesis by blast
    next
      case (Cons x xs)
      with a have "c \<in> set w" by simp
      with w "3.prems"(3) show ?thesis by blast
    qed
  next
    case b
    show ?thesis
    proof (cases u)
      case Nil
      with b have "r = w" "rest = join_sp (v # ws)" by simp_all
      then have "0 < (1::nat) \<and> 1 < length (w # v # ws) \<and> r = join_sp (take 1 (w # v # ws))
          \<and> rest = join_sp (drop 1 (w # v # ws))" by simp
      then show ?thesis by blast
    next
      case (Cons x xs)
      with b have r: "r = w @ 0x0020 # xs" and j: "join_sp (v # ws) = xs @ c # rest" by simp_all
      from "3.prems"(1) have "\<forall>w \<in> set (v # ws). word_ok w" by simp
      from "3.IH" [OF this j "3.prems"(3)] obtain j where
        j: "0 < j" "j < length (v # ws)" "xs = join_sp (take j (v # ws))"
           "rest = join_sp (drop j (v # ws))" by blast
      from j(1,2) have "take j (v # ws) \<noteq> []" by auto
      with r j(3) have "r = join_sp (take (Suc j) (w # v # ws))"
        by (simp add: join_sp_Cons)
      with j have "0 < Suc j \<and> Suc j < length (w # v # ws) \<and> r = join_sp (take (Suc j) (w # v # ws))
          \<and> rest = join_sp (drop (Suc j) (w # v # ws))" by simp
      then show ?thesis by blast
    qed
  qed
qed


lemma match_here_join_sp:
  assumes "ws \<noteq> []" "\<forall>w \<in> set ws. word_ok w"
  shows "\<exists>m rest. match_here 40 (join_sp ws) = Some (m, rest) \<and>
           ((trim m = join_sp ws \<and> rest = []) \<or>
            (\<exists>j. 0 < j \<and> j < length ws \<and> trim m = join_sp (take j ws) \<and>
                 rest = join_sp (drop j ws)))"
proof -
  from assms obtain w vs where ws: "ws = w # vs" and w: "word_ok w"
    by (cases ws) auto
  let ?s = "join_sp ws"
  have "match_here 40 ?s \<noteq> None"
  proof (rule match_here_feasible [where j = "length w"])
    from w show "0 < length w" "length w \<le> 40" by (simp_all add: word_ok_def)
    show "length w \<le> length ?s" unfolding ws by (cases vs) simp_all
    have tk: "take (length w) ?s = w" unfolding ws by (cases vs) simp_all
    from w show "\<forall>c \<in> set (take (length w) ?s). \<not> is_line_terminator c"
      unfolding tk using line_terminator_white_space by (auto simp: word_ok_def)
    show "drop (length w) ?s = [] \<or> is_white_space (hd (drop (length w) ?s))"
      unfolding ws by (cases vs) (simp_all add: space_white)
  qed
  then obtain m rest where mr: "match_here 40 ?s = Some (m, rest)" by auto
  from match_here_shape [OF mr] obtain r where
    s: "m @ rest = ?s" and r: "r \<noteq> []"
    and alt: "(m = r \<and> rest = []) \<or> (\<exists>c. is_white_space c \<and> m = r @ [c])" by blast
  from alt show ?thesis
  proof
    assume a: "m = r \<and> rest = []"
    with s have "m = ?s" by simp
    with assms have "trim m = ?s" by (simp add: trim_join_sp)
    with mr a show ?thesis by blast
  next
    assume "\<exists>c. is_white_space c \<and> m = r @ [c]"
    then obtain c where c: "is_white_space c" and m: "m = r @ [c]" by blast
    from s m have "?s = r @ c # rest" by simp
    from join_sp_split [OF assms(2) this c] obtain j where
      j: "0 < j" "j < length ws" "r = join_sp (take j ws)" "rest = join_sp (drop j ws)"
      by blast
    from j(1,2) have ne: "take j ws \<noteq> []" by auto
    have "\<forall>w \<in> set (take j ws). word_ok w" using assms(2) by (meson in_set_takeD)
    with ne have "trim (join_sp (take j ws)) = join_sp (take j ws)" by (rule trim_join_sp)
    with c m j(3) have "trim m = join_sp (take j ws)" by (simp add: trim_snoc_white_space)
    with mr j show ?thesis by blast
  qed
qed

lemma chunks_join_sp:
  "\<forall>w \<in> set ws. word_ok w \<Longrightarrow> join_sp (chunks (join_sp ws)) = join_sp ws"
proof (induction ws rule: length_induct)
  case (1 ws)
  show ?case
  proof (cases "ws = []")
    case True
    then show ?thesis by (simp add: chunks_def)
  next
    case False
    from "1.prems" have ne: "\<forall>w \<in> set ws. w \<noteq> []" by (simp add: word_ok_def)
    with False have "join_sp ws \<noteq> []" by (simp add: join_sp_eq_Nil)
    then obtain c s where cs: "join_sp ws = c # s" by (cases "join_sp ws") auto
    from match_here_join_sp [OF False "1.prems"] obtain m rest where
      mr: "match_here 40 (join_sp ws) = Some (m, rest)"
      and alt: "(trim m = join_sp ws \<and> rest = []) \<or>
            (\<exists>j. 0 < j \<and> j < length ws \<and> trim m = join_sp (take j ws) \<and>
                 rest = join_sp (drop j ws))" by blast
    from mr cs have ma: "match_all (join_sp ws) = m # match_all rest" by simp
    from alt show ?thesis
    proof
      assume "trim m = join_sp ws \<and> rest = []"
      with ma \<open>join_sp ws \<noteq> []\<close> show ?thesis by (simp add: chunks_def)
    next
      assume "\<exists>j. 0 < j \<and> j < length ws \<and> trim m = join_sp (take j ws) \<and>
                 rest = join_sp (drop j ws)"
      then obtain j where j: "0 < j" "j < length ws" "trim m = join_sp (take j ws)"
        "rest = join_sp (drop j ws)" by blast
      from j(1,2) have tne: "take j ws \<noteq> []" and dne: "drop j ws \<noteq> []" by auto
      have tok: "\<forall>w \<in> set (take j ws). w \<noteq> []" using ne by (meson in_set_takeD)
      have dok: "\<forall>w \<in> set (drop j ws). word_ok w" using "1.prems" by (meson in_set_dropD)
      then have dok': "\<forall>w \<in> set (drop j ws). w \<noteq> []" by (simp add: word_ok_def)
      from tne tok have mne: "trim m \<noteq> []" unfolding j(3) by (simp add: join_sp_eq_Nil)
      from j(1,2) have "length (drop j ws) < length ws" by simp
      with "1.IH" dok have ih: "join_sp (chunks (join_sp (drop j ws))) = join_sp (drop j ws)"
        by blast
      from dne dok' have "join_sp (drop j ws) \<noteq> []" by (simp add: join_sp_eq_Nil)
      with ih have cne: "chunks (join_sp (drop j ws)) \<noteq> []" by auto
      from ma mne j(4) have "chunks (join_sp ws) = trim m # chunks (join_sp (drop j ws))"
        by (simp add: chunks_def)
      with cne ih j(3) have "join_sp (chunks (join_sp ws))
          = join_sp (take j ws) @ [0x0020] @ join_sp (drop j ws)"
        by (simp add: join_sp_Cons)
      also have "\<dots> = join_sp (take j ws @ drop j ws)"
        by (rule join_sp_append [OF tne dne, symmetric])
      finally show ?thesis by simp
    qed
  qed
qed

lemma match_all_trim_length: "\<forall>m \<in> set (match_all s). length (trim m) \<le> 40"
proof (induction s rule: match_all.induct)
  case 1
  then show ?case by simp
next
  case (2 c s)
  show ?case
  proof (cases "match_here 40 (c # s)")
    case None
    with 2 show ?thesis by simp
  next
    case (Some p)
    obtain m rest where p: "p = (m, rest)" by (cases p)
    from match_here_shape [OF Some [unfolded p]] obtain r where
      r: "length r \<le> 40" and alt: "(m = r \<and> rest = []) \<or> (\<exists>c. is_white_space c \<and> m = r @ [c])"
      by blast
    have "length (trim m) \<le> length r"
      using alt length_trim_le [of r] by (auto simp: trim_snoc_white_space)
    with r have "length (trim m) \<le> 40" by simp
    with 2 Some p show ?thesis by simp
  qed
qed

lemma match_all_Nil: "match_all s = [] \<Longrightarrow> \<forall>c \<in> set s. is_line_terminator c"
proof (induction s rule: match_all.induct)
  case 1
  then show ?case by simp
next
  case (2 c s)
  from "2.prems" have none: "match_here 40 (c # s) = None"
    by (auto split: option.splits)
  with 2 have s: "\<forall>x \<in> set s. is_line_terminator x" by simp
  have "is_line_terminator c"
  proof (rule ccontr)
    assume c: "\<not> is_line_terminator c"
    have "match_here 40 (c # s) \<noteq> None"
    proof (rule match_here_feasible [where j = 1])
      show "drop 1 (c # s) = [] \<or> is_white_space (hd (drop 1 (c # s)))"
        using s line_terminator_white_space by (cases s) auto
    qed (use c in simp_all)
    with none show False by simp
  qed
  with s show ?case by simp
qed



lemma chunks_bounds: "\<forall>c \<in> set (chunks s). c \<noteq> [] \<and> length c \<le> 40"
  using match_all_trim_length [of s] by (auto simp: chunks_def)

lemma wrap_long_text:
  assumes "40 < length t"
  shows "splitIntoLines [t] = chunks t"
proof (cases "match_all t")
  case Nil
  then have "\<forall>c \<in> set t. is_white_space c"
    using match_all_Nil line_terminator_white_space by blast
  then have "trim t = []" by (simp add: trim_eq_Nil_iff)
  with Nil assms show ?thesis by (simp add: splitIntoLines_def wrap_text_def chunks_def)
next
  case (Cons m ms)
  with assms show ?thesis by (simp add: splitIntoLines_def wrap_text_def chunks_def)
qed

text \<open>
  C2, as the code has it: for a string of more than 40 code units every chunk returned is
  non-empty and has at most 40 code units; and when the string is a sequence of words of
  1 to 40 code units without white space, separated by single spaces, there are at least
  two chunks and joining them with single spaces gives the string back.
\<close>

theorem splitIntoLines_long:
  assumes "40 < length t"
  shows "(\<forall>c \<in> set (splitIntoLines [t]). c \<noteq> [] \<and> length c \<le> 40) \<and>
         (\<forall>ws. (\<forall>w \<in> set ws. word_ok w) \<and> t = join_sp ws \<longrightarrow>
            2 \<le> length (splitIntoLines [t]) \<and> join_sp (splitIntoLines [t]) = t)"
proof (intro conjI allI impI)
  from assms have eq: "splitIntoLines [t] = chunks t" by (rule wrap_long_text)
  show b: "\<forall>c \<in> set (splitIntoLines [t]). c \<noteq> [] \<and> length c \<le> 40"
    unfolding eq by (rule chunks_bounds)
  fix ws
  assume ws: "(\<forall>w \<in> set ws. word_ok w) \<and> t = join_sp ws"
  then have j: "join_sp (chunks t) = t" by (simp add: chunks_join_sp)
  then show "join_sp (splitIntoLines [t]) = t" by (simp add: eq)
  show "2 \<le> length (splitIntoLines [t])"
  proof (rule ccontr)
    assume "\<not> 2 \<le> length (splitIntoLines [t])"
    then have "length (chunks t) < 2" by (simp add: eq)
    then consider "chunks t = []" | c where "chunks t = [c]"
      by (cases "chunks t" rule: join_sp.cases) auto
    then show False
    proof cases
      case 1
      with j assms show False by auto
    next
      case (2 c)
      with j have "c = t" by simp
      moreover from 2 chunks_bounds [of t] have "length c \<le> 40" by simp
      ultimately show False using assms by simp
    qed
  qed
qed

theorem splitIntoLines_long_witness:
  "40 < length (SAMPLE_LINES ! 0) \<and>
   splitIntoLines [SAMPLE_LINES ! 0] =
     [lit ''??????! ?? ?? ?? ???? ???? ?? ???'', lit ''???????''] \<and>
   SAMPLE_LINES ! 0 =
     join_sp [lit ''??????!'', lit ''??'', lit ''??'', lit ''??'', lit ''????'', lit ''????'',
              lit ''??'', lit ''???'', lit ''???????''] \<and>
   2 \<le> length (splitIntoLines [SAMPLE_LINES ! 0]) \<and>
   join_sp (splitIntoLines [SAMPLE_LINES ! 0]) = SAMPLE_LINES ! 0"
proof -
  let ?ws = "[lit ''??????!'', lit ''??'', lit ''??'', lit ''??'', lit ''????'', lit ''????'',
              lit ''??'', lit ''???'', lit ''???????'']"
  have len: "40 < length (SAMPLE_LINES ! 0)" by (simp add: SAMPLE_LINES_def lit_def)
  have ws: "\<forall>w \<in> set ?ws. word_ok w"
    by (simp add: word_ok_def lit_def is_white_space_def is_line_terminator_def)
  have t: "SAMPLE_LINES ! 0 = join_sp ?ws" by (simp add: SAMPLE_LINES_def lit_def)
  have v: "splitIntoLines [SAMPLE_LINES ! 0] =
     [lit ''??????! ?? ?? ?? ???? ???? ?? ???'', lit ''???????'']"
    by code_simp
  from splitIntoLines_long [OF len] ws t
  have "2 \<le> length (splitIntoLines [SAMPLE_LINES ! 0]) \<and>
        join_sp (splitIntoLines [SAMPLE_LINES ! 0]) = SAMPLE_LINES ! 0" by blast
  with len t v show ?thesis by blast
qed

text \<open>
  C2 as stated fails: a letter followed by 40 spaces has 41 code units and gives the one
  chunk \<open>a\<close>; a word of 41 letters gives one chunk of 40 letters, its first letter lost.
\<close>

theorem splitIntoLines_long_counterexample:
  "40 < length (0x0061 # replicate 40 (0x0020 :: jschar)) \<and>
   splitIntoLines [0x0061 # replicate 40 0x0020] = [[0x0061]] \<and>
   40 < length (replicate 41 (0x0061 :: jschar)) \<and>
   splitIntoLines [replicate 41 0x0061] = [replicate 40 0x0061] \<and>
   join_sp [replicate 40 0x0061] \<noteq> replicate 41 0x0061"
  by code_simp

text \<open>
  C8: a string of at most 40 code units comes back trimmed, and is dropped when it trims
  to the empty string, that is, when it is white space only; so does every string of a
  list of such strings. The wrapper is a total function: \<open>match_all\<close> terminates on
  every input.
\<close>

theorem splitIntoLines_short:
  "(length t \<le> 40 \<longrightarrow> splitIntoLines [t] = (if trim t = [] then [] else [trim t])) \<and>
   (trim t = [] \<longleftrightarrow> (\<forall>c \<in> set t. is_white_space c)) \<and>
   ((\<forall>t \<in> set texts. length t \<le> 40) \<longrightarrow>
      splitIntoLines texts = filter (\<lambda>s. s \<noteq> []) (map trim texts))"
proof (intro conjI impI)
  show "splitIntoLines [t] = (if trim t = [] then [] else [trim t])" if "length t \<le> 40"
    using that by (simp add: splitIntoLines_def wrap_text_def)
  show "trim t = [] \<longleftrightarrow> (\<forall>c \<in> set t. is_white_space c)" by (rule trim_eq_Nil_iff)
  assume a: "\<forall>t \<in> set texts. length t \<le> 40"
  then have "concat (map wrap_text texts) = texts"
    by (induction texts) (simp_all add: wrap_text_def)
  then show "splitIntoLines texts = filter (\<lambda>s. s \<noteq> []) (map trim texts)"
    by (simp add: splitIntoLines_def)
qed

theorem splitIntoLines_short_witness:
  "length (lit ''  namaste  '') \<le> 40 \<and> length (lit ''   '') \<le> 40 \<and>
   splitIntoLines [lit ''  namaste  ''] = [lit ''namaste''] \<and>
   splitIntoLines [lit ''   ''] = [] \<and>
   splitIntoLines [lit ''  namaste  '', lit ''   ''] = [lit ''namaste'']"
proof -
  have l: "length (lit ''  namaste  '') \<le> 40" "length (lit ''   '') \<le> 40"
    by (simp_all add: lit_def)
  then have a: "\<forall>t \<in> set [lit ''  namaste  '', lit ''   '']. length t \<le> 40" by simp
  have t1: "trim (lit ''  namaste  '') = lit ''namaste''" by code_simp
  have t2: "trim (lit ''   '') = []" by code_simp
  have ne: "lit ''namaste'' \<noteq> []" by (simp add: lit_def)
  note one = splitIntoLines_short [of "lit ''  namaste  ''" "[lit ''  namaste  '', lit ''   '']"]
  note two = splitIntoLines_short [of "lit ''   ''" "[]"]
  from one l(1) have "splitIntoLines [lit ''  namaste  ''] =
      (if trim (lit ''  namaste  '') = [] then [] else [trim (lit ''  namaste  '')])" by blast
  then have 1: "splitIntoLines [lit ''  namaste  ''] = [lit ''namaste'']"
    unfolding t1 using ne by simp
  from two l(2) have "splitIntoLines [lit ''   ''] =
      (if trim (lit ''   '') = [] then [] else [trim (lit ''   '')])" by blast
  then have 2: "splitIntoLines [lit ''   ''] = []" unfolding t2 by simp
  from one a have "splitIntoLines [lit ''  namaste  '', lit ''   ''] =
      filter (\<lambda>s. s \<noteq> []) (map trim [lit ''  namaste  '', lit ''   ''])" by blast
  then have 3: "splitIntoLines [lit ''  namaste  '', lit ''   ''] = [lit ''namaste'']"
    using ne by (simp add: t1 t2)
  from l 1 2 3 show ?thesis by (intro conjI)
qed

section \<open>Properties of the Video Assembler\<close>

declare String_nat.simps [simp del]

lemma digit_unat:
  assumes "n < 10"
  shows "unat (of_nat (48 + n) :: jschar) - 48 = n"
proof -
  have "unat (of_nat (48 + n) :: jschar) = (48 + n) mod 2 ^ LENGTH(16)"
    by (rule unat_of_nat)
  also from assms have "\<dots> = 48 + n" by simp
  finally show ?thesis by simp
qed

lemma digit_unat': "n < 10 \<Longrightarrow> unat (48 + word_of_nat n :: jschar) - 48 = n"
  using digit_unat [of n] by simp

lemma decode_String_nat:
  "foldl (\<lambda>a c. 10 * a + (unat c - 48)) 0 (String_nat n) = n"
proof (induction n rule: String_nat.induct)
  case (1 n)
  show ?case
  proof (cases "n < 10")
    case True
    then show ?thesis by (subst String_nat.simps) (simp add: digit_unat')
  next
    case False
    have "n mod 10 < 10" by simp
    then have d: "unat (of_nat (48 + n mod 10) :: jschar) - 48 = n mod 10" by (rule digit_unat)
    from False 1 have "foldl (\<lambda>a c. 10 * a + (unat c - 48)) 0 (String_nat (n div 10)) = n div 10"
      by simp
    with False d show ?thesis by (subst String_nat.simps) (simp add: digit_unat')
  qed
qed

lemma concat_replicate_single: "concat (replicate n [x]) = replicate n x"
  by (induction n) simp_all

lemma padStart_zero: "padStart 4 (lit ''0'') s = replicate (4 - length s) 0x0030 @ s"
  by (simp add: padStart_def lit_def concat_replicate_single)

lemma decode_zeros:
  "foldl (\<lambda>a c. 10 * a + (unat c - 48)) 0 (replicate k (0x0030 :: jschar)) = 0"
  by (induction k) simp_all

lemma decode_frame_filename: "decode_index (frame_filename i) = i"
  unfolding decode_index_def frame_filename_def padStart_zero
  by (simp add: lit_def decode_zeros decode_String_nat)

lemma inj_frame_filename: "inj frame_filename"
  by (rule inj_on_inverseI [where g = decode_index]) (rule decode_frame_filename)

lemma frame_filename_0: "frame_filename 0 = lit ''frame_0000.png''"
  by (simp add: frame_filename_def padStart_def String_nat.simps [of 0] lit_def numeral_3_eq_3)

lemma frame_filename_1: "frame_filename 1 = lit ''frame_0001.png''"
  by (simp add: frame_filename_def padStart_def String_nat.simps [of "Suc 0"] lit_def numeral_3_eq_3)


declare line_frames.simps [simp del] all_frames.simps [simp del]

lemma line_frames_step:
  "fi < fpl \<Longrightarrow>
     line_frames cap fpl tot fi run =
       line_frames cap fpl tot (fi + 1)
         (run\<lparr>frameIndex := frameIndex run + 1,
              written := written run @
                [(frame_filename (frameIndex run),
                  \<lparr>caption = cap, progress0to1 = (of_nat (frameIndex run) + 1) / of_int tot\<rparr>)],
              states := states run @
                [Generating ((of_nat (frameIndex run) + 1) / of_int tot)]\<rparr>)"
  by (subst line_frames.simps) (simp add: Let_def)

lemma line_frames_stop: "\<not> fi < fpl \<Longrightarrow> line_frames cap fpl tot fi run = run"
  by (subst line_frames.simps) simp

lemma upt_frames:
  "fi < fpl \<Longrightarrow> [a ..< a + nat (fpl - fi)] = a # [Suc a ..< Suc a + nat (fpl - (fi + 1))]"
proof -
  assume "fi < fpl"
  then have "nat (fpl - fi) = Suc (nat (fpl - (fi + 1)))" by simp
  then show ?thesis by (simp add: upt_conv_Cons)
qed

lemma line_frames_frameIndex:
  "frameIndex (line_frames cap fpl tot fi run) = frameIndex run + nat (fpl - fi)"
proof (induction cap fpl tot fi run rule: line_frames.induct)
  case (1 cap fpl tot fi run)
  show ?case
  proof (cases "fi < fpl")
    case True
    then have n: "nat (fpl - fi) = Suc (nat (fpl - (fi + 1)))" by simp
    show ?thesis
      unfolding line_frames_step [OF True] "1.IH" [OF True refl refl] n by simp
  next
    case False
    then show ?thesis by (simp add: line_frames_stop)
  qed
qed

lemma line_frames_written:
  "written (line_frames cap fpl tot fi run) =
     written run @
     map (\<lambda>i. (frame_filename i, \<lparr>caption = cap, progress0to1 = (of_nat i + 1) / of_int tot\<rparr>))
       [frameIndex run ..< frameIndex run + nat (fpl - fi)]"
proof (induction cap fpl tot fi run rule: line_frames.induct)
  case (1 cap fpl tot fi run)
  show ?case
  proof (cases "fi < fpl")
    case True
    show ?thesis
      unfolding line_frames_step [OF True] "1.IH" [OF True refl refl] upt_frames [OF True]
      by simp
  next
    case False
    then show ?thesis by (simp add: line_frames_stop)
  qed
qed


lemma all_frames_frameIndex:
  "frameIndex run = li * nat fpl \<Longrightarrow> li \<le> length ls \<Longrightarrow>
     frameIndex (all_frames ls fpl tot li run) = length ls * nat fpl"
proof (induction ls fpl tot li run rule: all_frames.induct)
  case (1 ls fpl tot li run)
  show ?case
  proof (cases "li < length ls")
    case True
    have "frameIndex (line_frames (ls ! li) fpl tot 0 run) = (li + 1) * nat fpl"
      using "1.prems"(1) by (simp add: line_frames_frameIndex)
    with True 1 show ?thesis by (subst all_frames.simps) simp
  next
    case False
    with 1 show ?thesis by (subst all_frames.simps) simp
  qed
qed

lemma all_frames_written:
  "frameIndex run = li * nat fpl \<Longrightarrow> li \<le> length ls \<Longrightarrow> 0 < fpl \<Longrightarrow>
     written (all_frames ls fpl tot li run) =
       written run @
       map (\<lambda>i. (frame_filename i,
                 \<lparr>caption = ls ! (i div nat fpl), progress0to1 = (of_nat i + 1) / of_int tot\<rparr>))
         [li * nat fpl ..< length ls * nat fpl]"
proof (induction ls fpl tot li run rule: all_frames.induct)
  case (1 ls fpl tot li run)
  let ?k = "nat fpl"
  let ?F = "\<lambda>i. (frame_filename i,
                 \<lparr>caption = ls ! (i div ?k), progress0to1 = (of_nat i + 1) / of_int tot\<rparr>)"
  show ?case
  proof (cases "li < length ls")
    case True
    let ?run = "line_frames (ls ! li) fpl tot 0 run"
    have fi: "frameIndex ?run = (li + 1) * ?k"
      using "1.prems"(1) by (simp add: line_frames_frameIndex)
    have k: "0 < ?k" using "1.prems"(3) by simp
    have "\<forall>i \<in> set [li * ?k ..< li * ?k + ?k]. i div ?k = li"
      using k by (auto simp: div_nat_eqI mult.commute)
    then have m: "map (\<lambda>i. (frame_filename i,
            \<lparr>caption = ls ! li, progress0to1 = (of_nat i + 1) / of_int tot\<rparr>))
          [li * ?k ..< li * ?k + ?k] = map ?F [li * ?k ..< li * ?k + ?k]"
      by (intro map_cong) auto
    have w: "written ?run = written run @ map ?F [li * ?k ..< li * ?k + ?k]"
      using "1.prems"(1) m by (simp add: line_frames_written)
    from True have le: "li + 1 \<le> length ls" by simp
    have ih: "written (all_frames ls fpl tot (li + 1) ?run) =
        written ?run @ map ?F [(li + 1) * ?k ..< length ls * ?k]"
      using "1.IH" [OF True fi le "1.prems"(3)] .
    have b: "(li + 1) * ?k \<le> length ls * ?k" using le by (intro mult_le_mono1)
    have "[li * ?k ..< (li + 1) * ?k + (length ls * ?k - (li + 1) * ?k)] =
        [li * ?k ..< (li + 1) * ?k] @
        [(li + 1) * ?k ..< (li + 1) * ?k + (length ls * ?k - (li + 1) * ?k)]"
      by (rule upt_add_eq_append) simp
    with b have "[li * ?k ..< length ls * ?k] =
        [li * ?k ..< li * ?k + ?k] @ [(li + 1) * ?k ..< length ls * ?k]"
      by (simp add: add.commute)
    with ih w True show ?thesis by (subst all_frames.simps) simp
  next
    case False
    with 1 show ?thesis by (subst all_frames.simps) simp
  qed
qed



lemma framesPerLine_pos: "1 \<le> framesPerLine d"
  by (simp add: framesPerLine_def)



lemma nat_totalFrames:
  "nat (totalFrames d lines) = length (allLines lines) * nat (framesPerLine d)"
  using framesPerLine_pos [of d] by (simp add: totalFrames_def nat_mult_distrib)

lemma written_render:
  "written (render d lines) =
     map (\<lambda>i. (frame_filename i,
               \<lparr>caption = allLines lines ! (i div nat (framesPerLine d)),
                progress0to1 = (of_nat i + 1) / of_int (totalFrames d lines)\<rparr>))
       [0 ..< nat (totalFrames d lines)]"
  using framesPerLine_pos [of d]
  by (simp add: render_def all_frames_written nat_totalFrames)









lemma captions_by_line:
  "0 < k \<Longrightarrow> map (\<lambda>i. ls ! (i div k)) [0 ..< length ls * k] = concat (map (replicate k) ls)"
proof (induction ls rule: rev_induct)
  case Nil
  then show ?case by simp
next
  case (snoc x ls)
  let ?n = "length ls"
  have split: "[0 ..< (?n + 1) * k] = [0 ..< ?n * k] @ [?n * k ..< ?n * k + k]"
    using upt_add_eq_append [of 0 "?n * k" k] by (simp add: add.commute)
  have a: "map (\<lambda>i. (ls @ [x]) ! (i div k)) [0 ..< ?n * k] = map (\<lambda>i. ls ! (i div k)) [0 ..< ?n * k]"
  proof (rule map_cong [OF refl])
    fix i assume "i \<in> set [0 ..< ?n * k]"
    then have "i < ?n * k" by simp
    then have "i div k < ?n" using snoc.prems by (simp add: less_mult_imp_div_less)
    then show "(ls @ [x]) ! (i div k) = ls ! (i div k)" by (simp add: nth_append)
  qed
  have b: "map (\<lambda>i. (ls @ [x]) ! (i div k)) [?n * k ..< ?n * k + k] = replicate k x"
  proof -
    have "\<forall>i \<in> set [?n * k ..< ?n * k + k]. (ls @ [x]) ! (i div k) = x"
    proof
      fix i assume "i \<in> set [?n * k ..< ?n * k + k]"
      then have "i div k = ?n" using snoc.prems by (auto simp: div_nat_eqI mult.commute)
      then show "(ls @ [x]) ! (i div k) = x" by simp
    qed
    then have "map (\<lambda>i. (ls @ [x]) ! (i div k)) [?n * k ..< ?n * k + k]
        = map (\<lambda>i. x) [?n * k ..< ?n * k + k]"
      by (intro map_cong) auto
    then show ?thesis by (simp add: map_replicate_const)
  qed
  have "map (\<lambda>i. (ls @ [x]) ! (i div k)) [0 ..< length (ls @ [x]) * k]
      = map (\<lambda>i. (ls @ [x]) ! (i div k)) [0 ..< ?n * k] @
        map (\<lambda>i. (ls @ [x]) ! (i div k)) [?n * k ..< ?n * k + k]"
    using split by simp
  with a b snoc show ?case by simp
qed

text \<open>
  C7: the files are written under the names \<open>frame_0000.png\<close>, \<open>frame_0001.png\<close>,
  and so on, one for each index from 0 to \<open>totalFrames - 1\<close> in increasing order, no two
  under the same name; their captions are the script lines in order, each repeated
  \<open>framesPerLine\<close> times.
\<close>

theorem frames_written_in_order:
  "map fst (written (render d lines)) = map frame_filename [0 ..< nat (totalFrames d lines)] \<and>
   distinct (map fst (written (render d lines))) \<and>
   map (caption \<circ> snd) (written (render d lines)) =
     concat (map (replicate (nat (framesPerLine d))) (allLines lines)) \<and>
   frame_filename 0 = lit ''frame_0000.png'' \<and>
   frame_filename 1 = lit ''frame_0001.png''"
proof (intro conjI)
  show names: "map fst (written (render d lines)) =
      map frame_filename [0 ..< nat (totalFrames d lines)]"
    by (simp add: written_render comp_def)
  have "inj_on frame_filename (set [0 ..< nat (totalFrames d lines)])"
    using inj_frame_filename by (rule inj_on_subset) simp
  then show "distinct (map fst (written (render d lines)))"
    unfolding names by (simp add: distinct_map)
  have k: "0 < nat (framesPerLine d)" using framesPerLine_pos [of d] by simp
  have "map (caption \<circ> snd) (written (render d lines)) =
      map (\<lambda>i. allLines lines ! (i div nat (framesPerLine d)))
        [0 ..< length (allLines lines) * nat (framesPerLine d)]"
    by (simp add: written_render comp_def nat_totalFrames)
  with captions_by_line [OF k]
  show "map (caption \<circ> snd) (written (render d lines)) =
      concat (map (replicate (nat (framesPerLine d))) (allLines lines))" by simp
  show "frame_filename 0 = lit ''frame_0000.png''" by (rule frame_filename_0)
  show "frame_filename 1 = lit ''frame_0001.png''" by (rule frame_filename_1)
qed

lemma totalFrames_two: "totalFrames 0 [lit ''a'', lit ''b''] = 2"
  by code_simp

lemma framesPerLine_zero: "framesPerLine 0 = 1"
  by code_simp

theorem frames_written_in_order_witness:
  "map fst (written (render 0 [lit ''a'', lit ''b''])) =
     [lit ''frame_0000.png'', lit ''frame_0001.png''] \<and>
   distinct (map fst (written (render 0 [lit ''a'', lit ''b'']))) \<and>
   map (caption \<circ> snd) (written (render 0 [lit ''a'', lit ''b''])) = [lit ''a'', lit ''b'']"
proof -
  have u: "[0 ..< nat 2] = [0, 1]" by (simp add: upt_rec)
  have l: "allLines [lit ''a'', lit ''b''] = [lit ''a'', lit ''b'']" by (simp add: allLines_def)
  have f1: "frame_filename (Suc 0) = lit ''frame_0001.png''"
    using frame_filename_1 by simp
  from frames_written_in_order [of 0 "[lit ''a'', lit ''b'']"]
  show ?thesis
    unfolding totalFrames_two framesPerLine_zero u l
    by (simp add: frame_filename_0 f1 lit_def)
qed









section \<open>Properties of the Upload Relay\<close>

text \<open>
  C4: when the form has no \<open>pageId\<close>, no \<open>accessToken\<close> or no \<open>file\<close>, the relay
  answers 400 with the body \<open>{error: "Missing required fields"}\<close> and sends nothing to
  the remote API.
\<close>

theorem POST_missing_field:
  assumes "form_get form (lit ''pageId'') = None \<or>
           form_get form (lit ''accessToken'') = None \<or>
           form_get form (lit ''file'') = None"
  shows "POST (Inr form) fetch =
     (\<lparr>status = 400, body = JObj [(lit ''error'', JStr (lit ''Missing required fields''))],
       headers = []\<rparr>, [])"
  using assms by (auto simp: POST_def Let_def)

theorem POST_missing_field_witness:
  "form_get [(lit ''accessToken'', FString (lit ''t'')), (lit ''file'', FFile (lit ''v.mp4'') [1, 2])]
     (lit ''pageId'') = None \<and>
   POST (Inr [(lit ''accessToken'', FString (lit ''t'')), (lit ''file'', FFile (lit ''v.mp4'') [1, 2])])
     (\<lambda>u. Inr \<lparr>ok = True, parsed = Inr JNull\<rparr>) =
     (\<lparr>status = 400, body = JObj [(lit ''error'', JStr (lit ''Missing required fields''))],
       headers = []\<rparr>, [])"
proof -
  have a: "form_get [(lit ''accessToken'', FString (lit ''t'')),
      (lit ''file'', FFile (lit ''v.mp4'') [1, 2])] (lit ''pageId'') = None"
    by (simp add: form_get_def lit_def)
  with POST_missing_field [of "[(lit ''accessToken'', FString (lit ''t'')),
      (lit ''file'', FFile (lit ''v.mp4'') [1, 2])]" "\<lambda>u. Inr \<lparr>ok = True, parsed = Inr JNull\<rparr>"]
  show ?thesis by blast
qed


text \<open>
  C10: the relay answers in the same way when \<open>pageId\<close> or \<open>accessToken\<close> is the
  empty string, or when \<open>file\<close> is a string and not a file.
\<close>

theorem POST_empty_or_not_a_file:
  assumes "form_get form (lit ''pageId'') = Some (FString []) \<or>
           form_get form (lit ''accessToken'') = Some (FString []) \<or>
           (\<exists>s. form_get form (lit ''file'') = Some (FString s))"
  shows "POST (Inr form) fetch =
     (\<lparr>status = 400, body = JObj [(lit ''error'', JStr (lit ''Missing required fields''))],
       headers = []\<rparr>, [])"
  using assms by (auto simp: POST_def Let_def)

theorem POST_empty_or_not_a_file_witness:
  "form_get [(lit ''pageId'', FString (lit ''1'')), (lit ''accessToken'', FString (lit ''t'')),
             (lit ''file'', FString (lit ''video''))] (lit ''file'') = Some (FString (lit ''video'')) \<and>
   POST (Inr [(lit ''pageId'', FString (lit ''1'')), (lit ''accessToken'', FString (lit ''t'')),
             (lit ''file'', FString (lit ''video''))])
     (\<lambda>u. Inr \<lparr>ok = True, parsed = Inr JNull\<rparr>) =
     (\<lparr>status = 400, body = JObj [(lit ''error'', JStr (lit ''Missing required fields''))],
       headers = []\<rparr>, [])"
proof -
  let ?form = "[(lit ''pageId'', FString (lit ''1'')), (lit ''accessToken'', FString (lit ''t'')),
             (lit ''file'', FString (lit ''video''))]"
  have a: "form_get ?form (lit ''file'') = Some (FString (lit ''video''))"
    by (simp add: form_get_def lit_def)
  then have "\<exists>s. form_get ?form (lit ''file'') = Some (FString s)" by blast
  with POST_empty_or_not_a_file [of ?form "\<lambda>u. Inr \<lparr>ok = True, parsed = Inr JNull\<rparr>"] a
  show ?thesis by blast
qed





end
